theory Spec2Isabelle
  imports Complex_Main "HOL-Library.Word"
begin

section \<open>Go-Back-N sender (GO-BACK2025/client.py, class GBNClient)\<close>

text \<open>
  The sender is a Python object whose fields are mutated by three kinds of thread: the
  main thread (\<open>send_packets\<close>, \<open>wait_for_completion\<close>, \<open>stop\<close>), the listener thread
  (\<open>receive_acks\<close>) and one thread per \<open>threading.Timer\<close> object (\<open>handle_timeout\<close>).
  Every access to the window happens inside \<open>with self.lock\<close>, so the model is a record of
  the fields and one state transformer per critical section. Python integers are
  \<open>int\<close>; the two floats that are only ever compared (the loss rate and the value of
  \<open>random.random()\<close>) are \<open>real\<close>; the two dictionaries are maps.

  The fields \<open>server_addr\<close>, \<open>timeout\<close>, \<open>socket\<close>, \<open>ack_thread\<close> and \<open>lock\<close> are left
  out: no branch of the code depends on their values. Two fields of the record do not
  exist in the class and stand for the objects the class talks to: \<open>timers\<close> is the
  table of \<open>threading.Timer\<close> objects created so far (a \<open>timer_thread\<close> reference is an
  index into it) and \<open>sendto_calls\<close> is the list of byte strings handed to
  \<open>socket.sendto\<close>, in call order, whether or not the call then raises. What the
  environment decides is a parameter of the function that meets it: the value of
  \<open>random.random()\<close>, whether \<open>sendto\<close> raises, what \<open>recvfrom\<close> returns. Log output
  is not modelled.
\<close>

subsection \<open>Packet codec\<close>

type_synonym byte = "8 word"

text \<open>\<open>struct.pack('!I', n)\<close>: four bytes, big endian; raises \<open>struct.error\<close> (here
  \<open>None\<close>) unless \<open>0 \<le> n < 2^32\<close>.\<close>

definition pack_I :: "int \<Rightarrow> byte list option" where
  "pack_I n =
     (if 0 \<le> n \<and> n < 2 ^ 32
      then Some [word_of_int (n div 2 ^ 24), word_of_int (n div 2 ^ 16),
                 word_of_int (n div 2 ^ 8), word_of_int n]
      else None)"

text \<open>\<open>struct.unpack('!I', data)[0]\<close>: defined on exactly four bytes, \<open>struct.error\<close>
  otherwise.\<close>

definition unpack_I :: "byte list \<Rightarrow> int option" where
  "unpack_I data =
     (case data of
        [b0, b1, b2, b3] \<Rightarrow> Some (uint b0 * 2 ^ 24 + uint b1 * 2 ^ 16 + uint b2 * 2 ^ 8 + uint b3)
      | _ \<Rightarrow> None)"

text \<open>The format specification \<open>{seq_num:03d}\<close> for a non-negative number: its decimal
  digits, padded with zeros on the left to width three.\<close>

fun digits10 :: "nat \<Rightarrow> string" where
  "digits10 n =
     (if n < 10 then [char_of (48 + n)]
      else digits10 (n div 10) @ [char_of (48 + n mod 10)])"

definition format_03d :: "nat \<Rightarrow> string" where
  "format_03d n = (let d = digits10 n in replicate (3 - length d) (CHR ''0'') @ d)"

definition payload_of :: "nat \<Rightarrow> string" where
  "payload_of n = ''Messaggio '' @ format_03d n"

text \<open>The first two statements of \<open>send_packet\<close>: the payload text, then the header
  followed by the payload's bytes (the text is ASCII, so UTF-8 encoding is one byte per
  character). \<open>None\<close> is the \<open>struct.error\<close> of the header; for a negative number the
  header fails whatever its payload text is.\<close>

definition make_packet :: "int \<Rightarrow> byte list option" where
  "make_packet seq_num =
     (case pack_I seq_num of
        None \<Rightarrow> None
      | Some header \<Rightarrow> Some (header @ map of_char (payload_of (nat seq_num))))"

subsection \<open>The client object\<close>

record stats =
  packets_sent :: int
  packets_lost :: int
  retransmissions :: int
  acks_received :: int
  timeouts :: int
  total_packets :: int

text \<open>A \<open>threading.Timer\<close> object waits for its interval and then, unless \<open>cancel()\<close>
  was called in the meantime, calls its function. \<open>cancel()\<close> after the interval has
  elapsed has no effect: the function has been called and, here, is waiting for the lock.\<close>

datatype timer_status = Scheduled | Cancelled | Expired | Finished

record client =
  window_size :: int
  packet_loss_rate :: real
  base :: int
  next_seq :: int
  running :: bool
  timer_active :: bool
  timer_thread :: "nat option"
  stats :: stats
  packet_data :: "int \<rightharpoonup> byte list"
  sent_packets :: "int \<rightharpoonup> byte list"
  timers :: "timer_status list"
  sendto_calls :: "byte list list"

text \<open>\<open>__init__\<close>, and the assignments \<open>start\<close> makes before it calls
  \<open>send_packets\<close>.\<close>

definition new_client :: "int \<Rightarrow> real \<Rightarrow> client" where
  "new_client ws rate =
     \<lparr> window_size = ws, packet_loss_rate = rate, base = 0, next_seq = 0,
       running = False, timer_active = False, timer_thread = None,
       stats = \<lparr> packets_sent = 0, packets_lost = 0, retransmissions = 0,
                 acks_received = 0, timeouts = 0, total_packets = 0 \<rparr>,
       packet_data = Map.empty, sent_packets = Map.empty,
       timers = [], sendto_calls = [] \<rparr>"

definition start_session :: "int \<Rightarrow> client \<Rightarrow> client" where
  "start_session num_packets s =
     s\<lparr> running := True, stats := (stats s)\<lparr> total_packets := num_packets \<rparr> \<rparr>"

subsection \<open>Retransmission timer\<close>

definition cancel :: "nat \<Rightarrow> timer_status list \<Rightarrow> timer_status list" where
  "cancel i ts = (if i < length ts \<and> ts ! i = Scheduled then ts[i := Cancelled] else ts)"

definition start_timer :: "client \<Rightarrow> client" where
  "start_timer s =
     (if timer_active s then s
      else s\<lparr> timer_active := True,
              timer_thread := Some (length (timers s)),
              timers := timers s @ [Scheduled] \<rparr>)"

definition stop_timer :: "client \<Rightarrow> client" where
  "stop_timer s =
     (if timer_active s \<and> timer_thread s \<noteq> None
      then s\<lparr> timers := cancel (the (timer_thread s)) (timers s), timer_active := False \<rparr>
      else s)"

definition restart_timer :: "client \<Rightarrow> client" where
  "restart_timer s = start_timer (stop_timer s)"

subsection \<open>Sending\<close>

text \<open>\<open>send_packet\<close>. \<open>draw\<close> is the value \<open>random.random()\<close> returns in this call and
  \<open>ok\<close> says whether \<open>socket.sendto\<close> returns normally; every exception is caught and
  logged by the function itself.\<close>

definition send_packet :: "real \<Rightarrow> bool \<Rightarrow> int \<Rightarrow> client \<Rightarrow> client" where
  "send_packet draw ok seq_num s =
     (case make_packet seq_num of
        None \<Rightarrow> s
      | Some packet \<Rightarrow>
          let s1 = s\<lparr> packet_data := (packet_data s)(seq_num \<mapsto> packet) \<rparr> in
          if draw \<le> packet_loss_rate s1
          then s1\<lparr> stats := (stats s1)\<lparr> packets_lost := packets_lost (stats s1) + 1 \<rparr> \<rparr>
          else
            let s2 = s1\<lparr> sendto_calls := sendto_calls s1 @ [packet] \<rparr> in
            if \<not> ok then s2
            else s2\<lparr> sent_packets := (sent_packets s2)(seq_num \<mapsto> packet),
                     stats := (stats s2)\<lparr> packets_sent := packets_sent (stats s2) + 1 \<rparr> \<rparr>)"

text \<open>The inner loop of \<open>send_packets\<close>; \<open>rnd q\<close> and \<open>io q\<close> are the draw and the
  socket's answer while packet \<open>q\<close> is sent.\<close>

function send_window :: "(int \<Rightarrow> real) \<Rightarrow> (int \<Rightarrow> bool) \<Rightarrow> int \<Rightarrow> client \<Rightarrow> client" where
  "send_window rnd io num_packets s =
     (if next_seq s < base s + window_size s \<and> next_seq s < num_packets \<and> running s
      then
        let s1 = send_packet (rnd (next_seq s)) (io (next_seq s)) (next_seq s) s
        in send_window rnd io num_packets (s1\<lparr> next_seq := next_seq s1 + 1 \<rparr>)
      else s)"
  by pat_completeness auto
termination
  by (relation "measure (\<lambda>(rnd, io, n, s). nat (n - next_seq s))")
     (auto simp: send_packet_def Let_def split: option.split)

declare send_window.simps [simp del]

text \<open>One pass through the body of the outer loop of \<open>send_packets\<close>, that is, one
  critical section of the main thread.\<close>

definition send_step :: "(int \<Rightarrow> real) \<Rightarrow> (int \<Rightarrow> bool) \<Rightarrow> int \<Rightarrow> client \<Rightarrow> client" where
  "send_step rnd io num_packets s =
     (let s1 = send_window rnd io num_packets s
      in if \<not> timer_active s1 \<and> base s1 < next_seq s1 then start_timer s1 else s1)"

subsection \<open>Acknowledgements\<close>

definition handle_ack :: "int \<Rightarrow> client \<Rightarrow> client" where
  "handle_ack ack_num s =
     (let s1 = s\<lparr> stats := (stats s)\<lparr> acks_received := acks_received (stats s) + 1 \<rparr> \<rparr> in
      if ack_num \<ge> base s1 then
        let s2 = s1\<lparr> base := ack_num + 1 \<rparr>;
            s3 = s2\<lparr> sent_packets := (\<lambda>q. if q \<le> ack_num then None else sent_packets s2 q) \<rparr>;
            s4 = s3\<lparr> packet_data := (\<lambda>q. if q \<le> ack_num then None else packet_data s3 q) \<rparr>
        in if base s4 < next_seq s4 then restart_timer s4 else stop_timer s4
      else s1)"

text \<open>One pass through the loop of \<open>receive_acks\<close>. \<open>recvfrom(1024)\<close> returns at most
  1024 bytes of the datagram, or raises \<open>socket.timeout\<close>, or raises something else;
  both handlers go on to the next pass.\<close>

datatype recv_result = Datagram "byte list" | Socket_timeout | Socket_error

definition receive_acks_iter :: "recv_result \<Rightarrow> client \<Rightarrow> client" where
  "receive_acks_iter r s =
     (case r of
        Datagram d \<Rightarrow>
          let data = take 1024 d in
          if length data = 4
          then (case unpack_I data of Some ack_num \<Rightarrow> handle_ack ack_num s | None \<Rightarrow> s)
          else s
      | Socket_timeout \<Rightarrow> s
      | Socket_error \<Rightarrow> s)"

subsection \<open>Timeouts\<close>

text \<open>The body of the \<open>for\<close> loop of \<open>handle_timeout\<close> for one sequence number.\<close>

definition retransmit :: "(int \<Rightarrow> bool) \<Rightarrow> client \<Rightarrow> int \<Rightarrow> client" where
  "retransmit io s seq_num =
     (case packet_data s seq_num of
        Some packet \<Rightarrow>
          let s1 = s\<lparr> sendto_calls := sendto_calls s @ [packet] \<rparr> in
          if io seq_num
          then s1\<lparr> sent_packets := (sent_packets s1)(seq_num \<mapsto> packet),
                   stats := (stats s1)\<lparr> retransmissions := retransmissions (stats s1) + 1 \<rparr> \<rparr>
          else s1
      | None \<Rightarrow> s)"

definition handle_timeout :: "(int \<Rightarrow> bool) \<Rightarrow> client \<Rightarrow> client" where
  "handle_timeout io s =
     (if \<not> running s then s
      else
        let s1 = s\<lparr> stats := (stats s)\<lparr> timeouts := timeouts (stats s) + 1 \<rparr> \<rparr>;
            s2 = foldl (retransmit io) s1 [base s1 .. next_seq s1 - 1]
        in start_timer (s2\<lparr> timer_active := False \<rparr>))"

text \<open>What a timer thread does (\<open>threading.Timer.run\<close>): it waits for the interval
  and, if \<open>cancel()\<close> has not been called by then, calls \<open>handle_timeout\<close>, which first
  has to get the lock (\<open>timer_expire\<close>: from here on \<open>cancel()\<close> changes nothing); once
  it has the lock the handler runs (\<open>timer_run\<close>).\<close>

definition timer_expire :: "nat \<Rightarrow> client \<Rightarrow> client" where
  "timer_expire i s = s\<lparr> timers := (timers s)[i := Expired] \<rparr>"

definition timer_run :: "nat \<Rightarrow> (int \<Rightarrow> bool) \<Rightarrow> client \<Rightarrow> client" where
  "timer_run i io s =
     (let s1 = handle_timeout io s in s1\<lparr> timers := (timers s1)[i := Finished] \<rparr>)"

definition stop :: "client \<Rightarrow> client" where
  "stop s = stop_timer (s\<lparr> running := False \<rparr>)"

subsection \<open>The states of a session\<close>

text \<open>
  A session lasts from \<open>start\<close> to \<open>stop\<close>. Its states are those the three kinds of
  thread produce from the initial one, one critical section at a time:
  the main thread passes through the body of its loop while \<open>base < num_packets\<close>; the
  listener handles whatever \<open>recvfrom\<close> gives it; a scheduled timer expires; the handler
  of an expired timer runs. The parameter \<open>net\<close> says which results of \<open>recvfrom\<close> the
  network can produce in a state. Draws and socket answers are arbitrary.
\<close>

inductive reachable ::
  "(client \<Rightarrow> recv_result \<Rightarrow> bool) \<Rightarrow> int \<Rightarrow> real \<Rightarrow> int \<Rightarrow> client \<Rightarrow> bool"
  for net :: "client \<Rightarrow> recv_result \<Rightarrow> bool" and ws :: int and rate :: real and num_packets :: int
where
  started:
    "reachable net ws rate num_packets (start_session num_packets (new_client ws rate))"
| sent:
    "reachable net ws rate num_packets s \<Longrightarrow> base s < num_packets \<Longrightarrow> running s \<Longrightarrow>
     reachable net ws rate num_packets (send_step rnd io num_packets s)"
| received:
    "reachable net ws rate num_packets s \<Longrightarrow> running s \<Longrightarrow> net s r \<Longrightarrow>
     reachable net ws rate num_packets (receive_acks_iter r s)"
| expired:
    "reachable net ws rate num_packets s \<Longrightarrow> i < length (timers s) \<Longrightarrow>
     timers s ! i = Scheduled \<Longrightarrow>
     reachable net ws rate num_packets (timer_expire i s)"
| timed_out:
    "reachable net ws rate num_packets s \<Longrightarrow> i < length (timers s) \<Longrightarrow>
     timers s ! i = Expired \<Longrightarrow>
     reachable net ws rate num_packets (timer_run i io s)"

text \<open>Two networks: one that can deliver any datagram at any time, and one whose
  four-byte datagrams only ever acknowledge a packet the sender has already sent.\<close>

definition any_datagram :: "client \<Rightarrow> recv_result \<Rightarrow> bool" where
  "any_datagram s r = True"

definition acks_of_sent :: "client \<Rightarrow> recv_result \<Rightarrow> bool" where
  "acks_of_sent s r =
     (case r of
        Datagram d \<Rightarrow> (case unpack_I (take 1024 d) of Some a \<Rightarrow> a < next_seq s | None \<Rightarrow> True)
      | Socket_timeout \<Rightarrow> True
      | Socket_error \<Rightarrow> True)"

subsection \<open>The main thread\<close>

text \<open>
  \<open>send_packets\<close>, \<open>wait_for_completion\<close> and \<open>start\<close>. Both loops sleep for a tenth
  of a second in every pass; \<open>others k\<close> is what the listener and the timers do to the
  object during the main thread's \<open>k\<close>-th sleep, \<open>rnd k\<close> and \<open>io k\<close> are the draws and
  socket answers of its \<open>k\<close>-th pass and \<open>clock k\<close> is what \<open>time.time()\<close> returns after
  \<open>k\<close> sleeps. Neither loop is bounded by anything in its text, so both are partial
  functions: \<open>None\<close> is a loop that never ends.
\<close>

partial_function (option) send_packets ::
  "(nat \<Rightarrow> client \<Rightarrow> client) \<Rightarrow> (nat \<Rightarrow> int \<Rightarrow> real) \<Rightarrow> (nat \<Rightarrow> int \<Rightarrow> bool) \<Rightarrow> int \<Rightarrow>
   nat \<Rightarrow> client \<Rightarrow> (nat \<times> client) option" where
  "send_packets others rnd io num_packets k s =
     (if base s < num_packets \<and> running s
      then send_packets others rnd io num_packets (Suc k)
             (others k (send_step (rnd k) (io k) num_packets s))
      else Some (k, s))"

partial_function (option) wait_loop ::
  "(nat \<Rightarrow> client \<Rightarrow> client) \<Rightarrow> (nat \<Rightarrow> real) \<Rightarrow> real \<Rightarrow> nat \<Rightarrow> client \<Rightarrow> client option" where
  "wait_loop others clock start_time k s =
     (if base s < total_packets (stats s) \<and> running s
      then
        let s1 = others k s in
        if clock (Suc k) - start_time > 30 then Some s1
        else wait_loop others clock start_time (Suc k) s1
      else Some s)"

datatype report = All_confirmed | Partially int int

definition wait_for_completion ::
  "(nat \<Rightarrow> client \<Rightarrow> client) \<Rightarrow> (nat \<Rightarrow> real) \<Rightarrow> nat \<Rightarrow> client \<Rightarrow> (report \<times> client) option" where
  "wait_for_completion others clock k s =
     (case wait_loop others clock (clock k) k s of
        None \<Rightarrow> None
      | Some s1 \<Rightarrow>
          Some (if base s1 \<ge> total_packets (stats s1) then All_confirmed
                else Partially (base s1) (total_packets (stats s1)), s1))"

definition start ::
  "(nat \<Rightarrow> client \<Rightarrow> client) \<Rightarrow> (nat \<Rightarrow> int \<Rightarrow> real) \<Rightarrow> (nat \<Rightarrow> int \<Rightarrow> bool) \<Rightarrow> (nat \<Rightarrow> real) \<Rightarrow>
   int \<Rightarrow> client \<Rightarrow> (report \<times> client) option" where
  "start others rnd io clock num_packets s =
     (case send_packets others rnd io num_packets 0 (start_session num_packets s) of
        None \<Rightarrow> None
      | Some (k, s1) \<Rightarrow>
          (case wait_for_completion others clock k s1 of
             None \<Rightarrow> None
           | Some (rep, s2) \<Rightarrow> Some (rep, stop s2)))"

text \<open>A session in which no datagram ever arrives: during a sleep the current timer may
  expire and its handler run (\<open>fires k\<close>), and nothing else happens.\<close>

definition fire_timer :: "(int \<Rightarrow> bool) \<Rightarrow> client \<Rightarrow> client" where
  "fire_timer io s =
     (case timer_thread s of
        Some i \<Rightarrow> if timer_active s then timer_run i io (timer_expire i s) else s
      | None \<Rightarrow> s)"

definition timeouts_only :: "(nat \<Rightarrow> bool) \<Rightarrow> (nat \<Rightarrow> int \<Rightarrow> bool) \<Rightarrow> nat \<Rightarrow> client \<Rightarrow> client" where
  "timeouts_only fires io k s = (if fires k then fire_timer (io k) s else s)"

subsection \<open>Concrete sessions\<close>

text \<open>
  A session of fifteen packets with a window of four and a loss rate of one tenth, in
  which every draw is one half (nothing is dropped) and the socket never fails. After
  the first pass of the main thread packets 0 to 3 are out and timer 0 is scheduled.
  From there: an acknowledgement of packet 1; an acknowledgement of packet 5, which
  has not been sent, followed by another pass of the main thread; and two sessions in
  which timer 0 expires while the listener holds the lock for an acknowledgement (of
  packet 3, of packet 1), so that its handler runs after the listener is done.
\<close>

definition calm_draw :: "int \<Rightarrow> real" where
  "calm_draw q = 1 / 2"

definition socket_up :: "int \<Rightarrow> bool" where
  "socket_up q = True"

definition session0 :: client where
  "session0 = start_session 15 (new_client 4 (1 / 10))"

definition first_window :: client where
  "first_window = send_step calm_draw socket_up 15 session0"

definition in_order_ack :: client where
  "in_order_ack = receive_acks_iter (Datagram [0, 0, 0, 1]) first_window"

definition early_ack :: client where
  "early_ack = receive_acks_iter (Datagram [0, 0, 0, 5]) first_window"

definition after_early_ack :: client where
  "after_early_ack = send_step calm_draw socket_up 15 early_ack"

definition late_timeout :: client where
  "late_timeout =
     timer_run 0 socket_up (receive_acks_iter (Datagram [0, 0, 0, 3]) (timer_expire 0 first_window))"

definition two_timers :: client where
  "two_timers =
     timer_run 0 socket_up (receive_acks_iter (Datagram [0, 0, 0, 1]) (timer_expire 0 first_window))"



text \<open>Four more states. A session of \<open>2^32 + 1\<close> packets with a window as large,
  after the first pass of the main thread: sequence number \<open>2^32\<close> is in the window and
  does not fit the header. The first session stopped after timer 0 has expired and
  before its handler has run. The first session after timer 0 has expired and the
  listener has then handled the acknowledgement of packet 1. The first session after
  the acknowledgement of packet 1 and the expiry of the timer that acknowledgement
  started.\<close>

definition big :: client where
  "big = send_step calm_draw socket_up (2 ^ 32 + 1)
           (start_session (2 ^ 32 + 1) (new_client (2 ^ 32 + 1) (1 / 10)))"

definition stopped_late :: client where
  "stopped_late = stop (timer_expire 0 first_window)"

definition late_restart :: client where
  "late_restart = receive_acks_iter (Datagram [0, 0, 0, 1]) (timer_expire 0 first_window)"

definition current_expired :: client where
  "current_expired = timer_expire 1 in_order_ack"

section \<open>Properties\<close>

subsection \<open>What each operation does to each field\<close>

lemma make_packet_Some: "0 \<le> q \<Longrightarrow> q < 2 ^ 32 \<Longrightarrow> make_packet q \<noteq> None"
  by (simp add: make_packet_def pack_I_def)

lemma make_packet_None_iff: "make_packet q = None \<longleftrightarrow> \<not> (0 \<le> q \<and> q < 2 ^ 32)"
  by (simp add: make_packet_def pack_I_def)

lemma send_packet_fields [simp]:
  "base (send_packet d ok q s) = base s"
  "next_seq (send_packet d ok q s) = next_seq s"
  "window_size (send_packet d ok q s) = window_size s"
  "packet_loss_rate (send_packet d ok q s) = packet_loss_rate s"
  "running (send_packet d ok q s) = running s"
  "timer_active (send_packet d ok q s) = timer_active s"
  "timer_thread (send_packet d ok q s) = timer_thread s"
  "timers (send_packet d ok q s) = timers s"
  by (simp_all add: send_packet_def Let_def split: option.split)

lemma packet_data_send_packet:
  "packet_data (send_packet d ok q s) =
     (case make_packet q of None \<Rightarrow> packet_data s | Some p \<Rightarrow> (packet_data s)(q \<mapsto> p))"
  by (simp add: send_packet_def Let_def split: option.split)

lemma send_window_unfold:
  "next_seq s < base s + window_size s \<and> next_seq s < n \<and> running s \<Longrightarrow>
   send_window rnd io n s =
     send_window rnd io n
       ((send_packet (rnd (next_seq s)) (io (next_seq s)) (next_seq s) s)\<lparr>next_seq := next_seq s + 1\<rparr>)"
  by (subst send_window.simps) (simp add: Let_def)

lemma send_window_done:
  "\<not> (next_seq s < base s + window_size s \<and> next_seq s < n \<and> running s) \<Longrightarrow>
   send_window rnd io n s = s"
  by (subst send_window.simps) auto

lemma send_window_fields [simp]:
  "base (send_window rnd io n s) = base s \<and>
   window_size (send_window rnd io n s) = window_size s \<and>
   packet_loss_rate (send_window rnd io n s) = packet_loss_rate s \<and>
   running (send_window rnd io n s) = running s \<and>
   timer_active (send_window rnd io n s) = timer_active s \<and>
   timer_thread (send_window rnd io n s) = timer_thread s \<and>
   timers (send_window rnd io n s) = timers s"
proof (induction rnd io n s rule: send_window.induct)
  case (1 rnd io n s)
  show ?case
  proof (cases "next_seq s < base s + window_size s \<and> next_seq s < n \<and> running s")
    case True
    show ?thesis
      using "1.IH" [OF True refl] by (simp add: send_window_unfold [OF True])
  next
    case False
    then show ?thesis by (simp add: send_window_done)
  qed
qed

lemma next_seq_send_window:
  "next_seq (send_window rnd io n s) =
     (if running s then max (next_seq s) (min (base s + window_size s) n) else next_seq s)"
proof (induction rnd io n s rule: send_window.induct)
  case (1 rnd io n s)
  show ?case
  proof (cases "next_seq s < base s + window_size s \<and> next_seq s < n \<and> running s")
    case True
    then show ?thesis
      using "1.IH" [OF True refl] by (simp add: send_window_unfold [OF True])
  next
    case False
    then show ?thesis
      by (auto simp: send_window_done)
  qed
qed

lemma packet_data_send_window:
  "packet_data (send_window rnd io n s) q =
     (if next_seq s \<le> q \<and> q < next_seq (send_window rnd io n s) \<and> make_packet q \<noteq> None
      then make_packet q else packet_data s q)"
proof (induction rnd io n s rule: send_window.induct)
  case (1 rnd io n s)
  show ?case
  proof (cases "next_seq s < base s + window_size s \<and> next_seq s < n \<and> running s")
    case True
    let ?s1 = "send_packet (rnd (next_seq s)) (io (next_seq s)) (next_seq s) s"
    let ?s2 = "?s1\<lparr>next_seq := next_seq ?s1 + 1\<rparr>"
    have unf: "send_window rnd io n s = send_window rnd io n ?s2"
      using send_window_unfold [OF True] by simp
    have ge: "next_seq s + 1 \<le> next_seq (send_window rnd io n ?s2)"
      using True by (simp add: next_seq_send_window)
    have tri: "q = next_seq s \<or> q < next_seq s \<or> next_seq s + 1 \<le> q"
      by linarith
    show ?thesis
      unfolding unf using "1.IH" [OF True refl] ge tri
      by (auto simp: packet_data_send_packet split: option.splits)
  next
    case False
    then have "send_window rnd io n s = s"
      by (rule send_window_done)
    then show ?thesis by auto
  qed
qed

lemma start_timer_fields [simp]:
  "base (start_timer s) = base s"
  "next_seq (start_timer s) = next_seq s"
  "window_size (start_timer s) = window_size s"
  "packet_loss_rate (start_timer s) = packet_loss_rate s"
  "running (start_timer s) = running s"
  "packet_data (start_timer s) = packet_data s"
  "sent_packets (start_timer s) = sent_packets s"
  "stats (start_timer s) = stats s"
  "sendto_calls (start_timer s) = sendto_calls s"
  "timer_active (start_timer s) = True"
  by (simp_all add: start_timer_def)

lemma stop_timer_fields [simp]:
  "base (stop_timer s) = base s"
  "next_seq (stop_timer s) = next_seq s"
  "window_size (stop_timer s) = window_size s"
  "packet_loss_rate (stop_timer s) = packet_loss_rate s"
  "running (stop_timer s) = running s"
  "packet_data (stop_timer s) = packet_data s"
  "sent_packets (stop_timer s) = sent_packets s"
  "stats (stop_timer s) = stats s"
  "sendto_calls (stop_timer s) = sendto_calls s"
  "timer_thread (stop_timer s) = timer_thread s"
  by (simp_all add: stop_timer_def)

lemma restart_timer_fields [simp]:
  "base (restart_timer s) = base s"
  "next_seq (restart_timer s) = next_seq s"
  "window_size (restart_timer s) = window_size s"
  "packet_loss_rate (restart_timer s) = packet_loss_rate s"
  "running (restart_timer s) = running s"
  "packet_data (restart_timer s) = packet_data s"
  "sent_packets (restart_timer s) = sent_packets s"
  "stats (restart_timer s) = stats s"
  "sendto_calls (restart_timer s) = sendto_calls s"
  "timer_active (restart_timer s) = True"
  by (simp_all add: restart_timer_def)

lemma send_step_fields [simp]:
  "base (send_step rnd io n s) = base s"
  "window_size (send_step rnd io n s) = window_size s"
  "packet_loss_rate (send_step rnd io n s) = packet_loss_rate s"
  "running (send_step rnd io n s) = running s"
  "next_seq (send_step rnd io n s) = next_seq (send_window rnd io n s)"
  "packet_data (send_step rnd io n s) = packet_data (send_window rnd io n s)"
  "sendto_calls (send_step rnd io n s) = sendto_calls (send_window rnd io n s)"
  "stats (send_step rnd io n s) = stats (send_window rnd io n s)"
  by (simp_all add: send_step_def Let_def)

lemma handle_ack_fields [simp]:
  "window_size (handle_ack a s) = window_size s"
  "packet_loss_rate (handle_ack a s) = packet_loss_rate s"
  "running (handle_ack a s) = running s"
  "next_seq (handle_ack a s) = next_seq s"
  "sendto_calls (handle_ack a s) = sendto_calls s"
  "base (handle_ack a s) = (if base s \<le> a then a + 1 else base s)"
  "packet_data (handle_ack a s) q = (if base s \<le> a \<and> q \<le> a then None else packet_data s q)"
  by (simp_all add: handle_ack_def Let_def)

lemma retransmit_fields [simp]:
  "base (retransmit io s q) = base s"
  "next_seq (retransmit io s q) = next_seq s"
  "window_size (retransmit io s q) = window_size s"
  "packet_loss_rate (retransmit io s q) = packet_loss_rate s"
  "running (retransmit io s q) = running s"
  "packet_data (retransmit io s q) = packet_data s"
  "timers (retransmit io s q) = timers s"
  "timer_thread (retransmit io s q) = timer_thread s"
  "timer_active (retransmit io s q) = timer_active s"
  "packets_lost (stats (retransmit io s q)) = packets_lost (stats s)"
  "timeouts (stats (retransmit io s q)) = timeouts (stats s)"
  by (simp_all add: retransmit_def Let_def split: option.split)

lemma sendto_calls_retransmit:
  "sendto_calls (retransmit io s q) =
     sendto_calls s @ (case packet_data s q of None \<Rightarrow> [] | Some p \<Rightarrow> [p])"
  by (simp add: retransmit_def Let_def split: option.split)

lemma foldl_retransmit_fields [simp]:
  "base (foldl (retransmit io) s qs) = base s \<and>
   next_seq (foldl (retransmit io) s qs) = next_seq s \<and>
   window_size (foldl (retransmit io) s qs) = window_size s \<and>
   packet_loss_rate (foldl (retransmit io) s qs) = packet_loss_rate s \<and>
   running (foldl (retransmit io) s qs) = running s \<and>
   packet_data (foldl (retransmit io) s qs) = packet_data s \<and>
   timers (foldl (retransmit io) s qs) = timers s \<and>
   timer_thread (foldl (retransmit io) s qs) = timer_thread s \<and>
   timer_active (foldl (retransmit io) s qs) = timer_active s \<and>
   packets_lost (stats (foldl (retransmit io) s qs)) = packets_lost (stats s) \<and>
   timeouts (stats (foldl (retransmit io) s qs)) = timeouts (stats s)"
  by (induction qs arbitrary: s) simp_all

lemma sendto_calls_foldl_retransmit:
  "sendto_calls (foldl (retransmit io) s qs) = sendto_calls s @ List.map_filter (packet_data s) qs"
  by (induction qs arbitrary: s)
     (simp_all add: sendto_calls_retransmit List.map_filter_simps split: option.split)

lemma handle_timeout_fields [simp]:
  "base (handle_timeout io s) = base s"
  "next_seq (handle_timeout io s) = next_seq s"
  "window_size (handle_timeout io s) = window_size s"
  "packet_loss_rate (handle_timeout io s) = packet_loss_rate s"
  "running (handle_timeout io s) = running s"
  "packet_data (handle_timeout io s) = packet_data s"
  "packets_lost (stats (handle_timeout io s)) = packets_lost (stats s)"
  by (simp_all add: handle_timeout_def Let_def)

lemma sendto_calls_handle_timeout:
  "sendto_calls (handle_timeout io s) =
     (if running s
      then sendto_calls s @ List.map_filter (packet_data s) [base s .. next_seq s - 1]
      else sendto_calls s)"
  by (simp add: handle_timeout_def Let_def sendto_calls_foldl_retransmit)

lemma timer_run_fields [simp]:
  "base (timer_run i io s) = base s"
  "next_seq (timer_run i io s) = next_seq s"
  "window_size (timer_run i io s) = window_size s"
  "packet_loss_rate (timer_run i io s) = packet_loss_rate s"
  "running (timer_run i io s) = running s"
  "packet_data (timer_run i io s) = packet_data s"
  by (simp_all add: timer_run_def Let_def)

lemma timer_expire_fields [simp]:
  "base (timer_expire i s) = base s"
  "next_seq (timer_expire i s) = next_seq s"
  "window_size (timer_expire i s) = window_size s"
  "packet_loss_rate (timer_expire i s) = packet_loss_rate s"
  "running (timer_expire i s) = running s"
  "packet_data (timer_expire i s) = packet_data s"
  "timer_active (timer_expire i s) = timer_active s"
  "timer_thread (timer_expire i s) = timer_thread s"
  by (simp_all add: timer_expire_def)

lemma receive_acks_iter_cases:
  "receive_acks_iter r s = s \<or> (\<exists>a. receive_acks_iter r s = handle_ack a s \<and> (\<exists>d. r = Datagram d \<and> unpack_I (take 1024 d) = Some a))"
  by (auto simp: receive_acks_iter_def Let_def split: recv_result.split option.split)


subsection \<open>Invariants of a session\<close>

lemma reachable_consts:
  "reachable net ws rate n s \<Longrightarrow>
   running s \<and> window_size s = ws \<and> packet_loss_rate s = rate"
proof (induction rule: reachable.induct)
  case started
  show ?case by (simp add: start_session_def new_client_def)
next
  case (received s r)
  then show ?case using receive_acks_iter_cases [of r s] by auto
qed simp_all

lemma reachable_bounds:
  "reachable net ws rate n s \<Longrightarrow> 0 \<le> base s \<and> 0 \<le> next_seq s \<and> next_seq s \<le> max n 0"
proof (induction rule: reachable.induct)
  case started
  show ?case by (simp add: start_session_def new_client_def)
next
  case (sent s rnd io)
  then have "0 \<le> base s" "0 \<le> next_seq s" "next_seq s \<le> n" "running s"
    by auto
  then show ?case by (simp add: next_seq_send_window)
next
  case (received s r)
  then show ?case using receive_acks_iter_cases [of r s] by auto
qed simp_all

lemma reachable_window_upper:
  "reachable net ws rate n s \<Longrightarrow> 0 \<le> ws \<Longrightarrow> next_seq s \<le> base s + window_size s"
proof (induction rule: reachable.induct)
  case started
  then show ?case by (simp add: start_session_def new_client_def)
next
  case (sent s rnd io)
  then show ?case by (simp add: next_seq_send_window)
next
  case (received s r)
  then show ?case using receive_acks_iter_cases [of r s] by auto
qed simp_all

lemma reachable_store:
  "reachable net ws rate n s \<Longrightarrow>
   (\<forall>q p. packet_data s q = Some p \<longrightarrow> q < next_seq s \<and> make_packet q = Some p) \<and>
   (\<forall>q. base s \<le> q \<and> q < next_seq s \<and> q < 2 ^ 32 \<longrightarrow> packet_data s q \<noteq> None)"
proof (induction rule: reachable.induct)
  case started
  show ?case by (simp add: start_session_def new_client_def)
next
  case (sent s rnd io)
  have b: "0 \<le> base s" using reachable_bounds [OF sent.hyps(1)] by simp
  have mono: "next_seq s \<le> next_seq (send_window rnd io n s)"
    by (simp add: next_seq_send_window)
  have mk: "make_packet q \<noteq> None" if "base s \<le> q" "q < 2 ^ 32" for q
    using that b by (intro make_packet_Some) auto
  show ?case
  proof (intro conjI allI impI)
    fix q p assume a: "packet_data (send_step rnd io n s) q = Some p"
    have old: "packet_data s q = Some p \<Longrightarrow> q < next_seq s \<and> make_packet q = Some p"
      using sent.IH by blast
    from a old mono show "q < next_seq (send_step rnd io n s)"
      by (auto simp: packet_data_send_window split: if_splits)
    from a old show "make_packet q = Some p"
      by (auto simp: packet_data_send_window split: if_splits)
  next
    fix q assume "base (send_step rnd io n s) \<le> q \<and> q < next_seq (send_step rnd io n s) \<and> q < 2 ^ 32"
    then show "packet_data (send_step rnd io n s) q \<noteq> None"
      using sent.IH mk [of q] by (auto simp: packet_data_send_window)
  qed
next
  case (received s r)
  then show ?case using receive_acks_iter_cases [of r s] by (auto split: if_splits)
qed simp_all

lemma reachable_acks_of_sent:
  "reachable acks_of_sent ws rate n s \<Longrightarrow>
   base s \<le> next_seq s \<and> (\<forall>q p. packet_data s q = Some p \<longrightarrow> base s \<le> q)"
proof (induction rule: reachable.induct)
  case started
  show ?case by (simp add: start_session_def new_client_def)
next
  case (sent s rnd io)
  have mono: "next_seq s \<le> next_seq (send_window rnd io n s)"
    by (simp add: next_seq_send_window)
  with sent.IH show ?case
    by (auto simp: packet_data_send_window split: if_splits)
next
  case (received s r)
  from receive_acks_iter_cases [of r s] show ?case
  proof (elim disjE exE conjE)
    assume "receive_acks_iter r s = s"
    with received.IH show ?thesis by simp
  next
    fix a d assume eq: "receive_acks_iter r s = handle_ack a s"
      and r: "r = Datagram d" and u: "unpack_I (take 1024 d) = Some a"
    from received.hyps(3) r u have "a < next_seq s"
      by (simp add: acks_of_sent_def)
    with received.IH show ?thesis
      unfolding eq by (auto split: if_splits)
  qed
qed simp_all

lemma reachable_timer_thread:
  "reachable net ws rate n s \<Longrightarrow> timer_active s \<longrightarrow> timer_thread s \<noteq> None"
proof (induction rule: reachable.induct)
  case started
  show ?case by (simp add: start_session_def new_client_def)
next
  case (sent s rnd io)
  then show ?case by (simp add: send_step_def Let_def start_timer_def)
next
  case (received s r)
  then show ?case using receive_acks_iter_cases [of r s]
    by (auto simp: handle_ack_def Let_def restart_timer_def start_timer_def stop_timer_def
          split: if_splits)
next
  case (timed_out s i io)
  then show ?case
    by (simp add: timer_run_def handle_timeout_def Let_def start_timer_def)
qed simp_all

subsection \<open>The concrete sessions, evaluated\<close>

lemma unpack_I_4: "unpack_I [b0, b1, b2, b3] = Some (uint b0 * 2 ^ 24 + uint b1 * 2 ^ 16 + uint b2 * 2 ^ 8 + uint b3)"
  by (simp add: unpack_I_def)

lemma receive_small_ack:
  "receive_acks_iter (Datagram [0, 0, 0, b]) s = handle_ack (uint b) s"
  by (simp add: receive_acks_iter_def unpack_I_4)

lemma session0_fields:
  "base session0 = 0" "next_seq session0 = 0" "window_size session0 = 4" "running session0"
  "\<not> timer_active session0" "timers session0 = []" "timer_thread session0 = None"
  "packet_data session0 = Map.empty"
  by (simp_all add: session0_def start_session_def new_client_def)

lemma send_step_timer:
  "timer_active (send_step rnd io n s) = (timer_active s \<or> base s < next_seq (send_window rnd io n s))"
  "timers (send_step rnd io n s) =
     (if \<not> timer_active s \<and> base s < next_seq (send_window rnd io n s)
      then timers s @ [Scheduled] else timers s)"
  "timer_thread (send_step rnd io n s) =
     (if \<not> timer_active s \<and> base s < next_seq (send_window rnd io n s)
      then Some (length (timers s)) else timer_thread s)"
  by (auto simp: send_step_def Let_def start_timer_def)

lemma first_window_fields:
  "base first_window = 0" "next_seq first_window = 4" "window_size first_window = 4"
  "running first_window" "timer_active first_window" "timers first_window = [Scheduled]"
  "timer_thread first_window = Some 0"
  by (simp_all add: first_window_def session0_fields next_seq_send_window send_step_timer)

lemma reachable_first_window: "reachable net 4 (1 / 10) 15 first_window"
  unfolding first_window_def session0_def
  by (rule reachable.sent [OF reachable.started])
     (simp_all add: start_session_def new_client_def)


lemma early_ack_fields:
  "base early_ack = 6" "next_seq early_ack = 4" "window_size early_ack = 4" "running early_ack"
  "\<not> timer_active early_ack"
  by (simp_all add: early_ack_def receive_small_ack first_window_fields handle_ack_def Let_def stop_timer_def)

lemma reachable_early_ack: "reachable any_datagram 4 (1 / 10) 15 early_ack"
  unfolding early_ack_def
  by (rule reachable.received [OF reachable_first_window])
     (simp_all add: first_window_fields any_datagram_def)

lemma after_early_ack_fields:
  "base after_early_ack = 6" "next_seq after_early_ack = 10"
  "packet_data after_early_ack 4 \<noteq> None"
  by (simp_all add: after_early_ack_def early_ack_fields next_seq_send_window
        packet_data_send_window make_packet_None_iff)

lemma reachable_after_early_ack: "reachable any_datagram 4 (1 / 10) 15 after_early_ack"
  unfolding after_early_ack_def
  by (rule reachable.sent [OF reachable_early_ack]) (simp_all add: early_ack_fields)

lemma timer_active_handle_ack:
  "timer_active (handle_ack a s) =
     (if base s \<le> a then a + 1 < next_seq s \<or> (timer_active s \<and> timer_thread s = None)
      else timer_active s)"
  by (auto simp: handle_ack_def Let_def stop_timer_def)

lemma in_order_ack_fields:
  "base in_order_ack = 2" "next_seq in_order_ack = 4" "window_size in_order_ack = 4"
  "running in_order_ack" "timer_active in_order_ack"
  by (simp_all add: in_order_ack_def receive_small_ack first_window_fields
        timer_active_handle_ack)

lemma reachable_in_order_ack: "reachable acks_of_sent 4 (1 / 10) 15 in_order_ack"
  unfolding in_order_ack_def
  by (rule reachable.received [OF reachable_first_window])
     (simp_all add: first_window_fields acks_of_sent_def unpack_I_4)

lemma stale_ack:
  "a < base s \<Longrightarrow>
   handle_ack a s = s\<lparr> stats := (stats s)\<lparr> acks_received := acks_received (stats s) + 1 \<rparr> \<rparr>"
  by (simp add: handle_ack_def Let_def)

subsection \<open>Timeouts, the main thread and the loss simulation\<close>

lemma map_filter_all:
  "\<forall>q \<in> set qs. m q \<noteq> None \<Longrightarrow> List.map_filter m qs = map (\<lambda>q. the (m q)) qs"
  by (induction qs) (auto simp: List.map_filter_simps split: option.split)

lemma handle_timeout_timer:
  "running s \<Longrightarrow> timer_active (handle_timeout io s)"
  "running s \<Longrightarrow> timers (handle_timeout io s) = timers s @ [Scheduled]"
  "running s \<Longrightarrow> timer_thread (handle_timeout io s) = Some (length (timers s))"
  by (simp_all add: handle_timeout_def Let_def start_timer_def)

lemma packet_data_first_window:
  "packet_data first_window q = (if 0 \<le> q \<and> q < 4 then make_packet q else None)"
  by (simp add: first_window_def session0_fields next_seq_send_window packet_data_send_window
        make_packet_None_iff)

lemma expired_first_window_fields:
  "timers (timer_expire 0 first_window) = [Expired]"
  by (simp add: timer_expire_def first_window_fields)

lemma reachable_expired_first_window:
  "reachable net 4 (1 / 10) 15 (timer_expire 0 first_window)"
  by (rule reachable.expired [OF reachable_first_window]) (simp_all add: first_window_fields)

lemma timers_handle_ack_expired:
  "timers s = [Expired] \<Longrightarrow> timer_thread s = Some 0 \<Longrightarrow> timer_active s \<Longrightarrow> base s \<le> a \<Longrightarrow>
   timers (handle_ack a s) = (if a + 1 < next_seq s then [Expired, Scheduled] else [Expired]) \<and>
   timer_active (handle_ack a s) = (a + 1 < next_seq s)"
  by (simp add: handle_ack_def Let_def stop_timer_def restart_timer_def start_timer_def cancel_def)

lemma late_ack_fields:
  "base (receive_acks_iter (Datagram [0, 0, 0, 3]) (timer_expire 0 first_window)) = 4"
  "next_seq (receive_acks_iter (Datagram [0, 0, 0, 3]) (timer_expire 0 first_window)) = 4"
  "running (receive_acks_iter (Datagram [0, 0, 0, 3]) (timer_expire 0 first_window))"
  "\<not> timer_active (receive_acks_iter (Datagram [0, 0, 0, 3]) (timer_expire 0 first_window))"
  "timers (receive_acks_iter (Datagram [0, 0, 0, 3]) (timer_expire 0 first_window)) = [Expired]"
  using timers_handle_ack_expired [of "timer_expire 0 first_window" 3]
  by (simp_all add: receive_small_ack expired_first_window_fields first_window_fields)

lemma reachable_late_timeout: "reachable acks_of_sent 4 (1 / 10) 15 late_timeout"
  unfolding late_timeout_def
  by (rule reachable.timed_out [OF reachable.received [OF reachable_expired_first_window]])
     (simp_all add: late_ack_fields expired_first_window_fields first_window_fields acks_of_sent_def unpack_I_4)

lemma early_late_ack_fields:
  "base (receive_acks_iter (Datagram [0, 0, 0, 1]) (timer_expire 0 first_window)) = 2"
  "next_seq (receive_acks_iter (Datagram [0, 0, 0, 1]) (timer_expire 0 first_window)) = 4"
  "running (receive_acks_iter (Datagram [0, 0, 0, 1]) (timer_expire 0 first_window))"
  "timer_active (receive_acks_iter (Datagram [0, 0, 0, 1]) (timer_expire 0 first_window))"
  "timers (receive_acks_iter (Datagram [0, 0, 0, 1]) (timer_expire 0 first_window)) = [Expired, Scheduled]"
  using timers_handle_ack_expired [of "timer_expire 0 first_window" 1]
  by (simp_all add: receive_small_ack expired_first_window_fields first_window_fields)

lemma reachable_two_timers: "reachable acks_of_sent 4 (1 / 10) 15 two_timers"
  unfolding two_timers_def
  by (rule reachable.timed_out [OF reachable.received [OF reachable_expired_first_window]])
     (simp_all add: early_late_ack_fields expired_first_window_fields first_window_fields acks_of_sent_def unpack_I_4)

lemma two_timers_scheduled:
  "timers two_timers = [Finished, Scheduled, Scheduled]"
  by (simp add: two_timers_def timer_run_def Let_def handle_timeout_timer early_late_ack_fields)

lemma send_packets_returns_only_when_done:
  assumes ret: "send_packets others rnd io n k s = Some y"
    and quiet: "\<forall>j t. base (others j t) = base t \<and> running (others j t) = running t"
  shows "\<not> (base s < n \<and> running s)"
proof -
  define Q :: "(nat \<Rightarrow> client \<Rightarrow> client) \<Rightarrow> (nat \<Rightarrow> int \<Rightarrow> real) \<Rightarrow> (nat \<Rightarrow> int \<Rightarrow> bool) \<Rightarrow>
      int \<Rightarrow> nat \<Rightarrow> client \<Rightarrow> nat \<times> client \<Rightarrow> bool"
    where "Q = (\<lambda>others rnd io n k s y.
      (\<forall>j t. base (others j t) = base t \<and> running (others j t) = running t) \<longrightarrow>
      \<not> (base s < n \<and> running s))"
  have "Q others rnd io n k s y"
  proof (rule send_packets.raw_induct [of Q, OF _ ret])
    fix f :: "(nat \<Rightarrow> client \<Rightarrow> client) \<Rightarrow> (nat \<Rightarrow> int \<Rightarrow> real) \<Rightarrow> (nat \<Rightarrow> int \<Rightarrow> bool) \<Rightarrow>
      int \<Rightarrow> nat \<Rightarrow> client \<Rightarrow> (nat \<times> client) option"
    fix others rnd io n k s y
    assume IH: "\<And>others rnd io n k s y. f others rnd io n k s = Some y \<Longrightarrow> Q others rnd io n k s y"
      and body: "(if base s < n \<and> running s
                 then f others rnd io n (Suc k) (others k (send_step (rnd k) (io k) n s))
                 else Some (k, s)) = Some y"
    show "Q others rnd io n k s y"
      unfolding Q_def
    proof (intro impI notI)
      assume q: "\<forall>j t. base (others j t) = base t \<and> running (others j t) = running t"
        and c: "base s < n \<and> running s"
      let ?s' = "others k (send_step (rnd k) (io k) n s)"
      from c body have "f others rnd io n (Suc k) ?s' = Some y" by simp
      then have "Q others rnd io n (Suc k) ?s' y" by (rule IH)
      with q have "\<not> (base ?s' < n \<and> running ?s')" by (simp add: Q_def)
      with c q show False by simp
    qed
  qed
  with quiet show ?thesis by (simp add: Q_def)
qed

lemma fire_timer_fields [simp]:
  "base (fire_timer io s) = base s" "running (fire_timer io s) = running s"
  by (simp_all add: fire_timer_def split: option.split)

lemma timeouts_only_fields [simp]:
  "base (timeouts_only fires io k s) = base s" "running (timeouts_only fires io k s) = running s"
  by (simp_all add: timeouts_only_def)

lemma retransmit_rate:
  "retransmit io (s\<lparr>packet_loss_rate := r\<rparr>) q = (retransmit io s q)\<lparr>packet_loss_rate := r\<rparr>"
  by (simp add: retransmit_def Let_def split: option.split)

lemma foldl_retransmit_rate:
  "foldl (retransmit io) (s\<lparr>packet_loss_rate := r\<rparr>) qs =
     (foldl (retransmit io) s qs)\<lparr>packet_loss_rate := r\<rparr>"
  by (induction qs arbitrary: s) (simp_all add: retransmit_rate)

lemma start_timer_rate:
  "start_timer (s\<lparr>packet_loss_rate := r\<rparr>) = (start_timer s)\<lparr>packet_loss_rate := r\<rparr>"
  by (simp add: start_timer_def)

lemma foldl_retransmit_rate_stats:
  "foldl (retransmit io) (s\<lparr>packet_loss_rate := r, stats := x\<rparr>) qs =
     (foldl (retransmit io) (s\<lparr>stats := x\<rparr>) qs)\<lparr>packet_loss_rate := r\<rparr>"
proof -
  have "s\<lparr>packet_loss_rate := r, stats := x\<rparr> = (s\<lparr>stats := x\<rparr>)\<lparr>packet_loss_rate := r\<rparr>"
    by simp
  then show ?thesis
    by (simp only: foldl_retransmit_rate)
qed

lemma handle_timeout_rate:
  "handle_timeout io (s\<lparr>packet_loss_rate := r\<rparr>) = (handle_timeout io s)\<lparr>packet_loss_rate := r\<rparr>"
  by (simp add: handle_timeout_def Let_def foldl_retransmit_rate_stats start_timer_def)





lemma sendto_calls_next_seq [simp]:
  "sendto_calls (s\<lparr>next_seq := k\<rparr>) = sendto_calls s"
  by simp




subsection \<open>Acknowledgements and timeouts around an expired timer\<close>

lemma reachable_timer_index:
  "reachable net ws rate n s \<Longrightarrow>
   timer_active s \<longrightarrow> (\<exists>i. timer_thread s = Some i \<and> i < length (timers s))"
proof (induction rule: reachable.induct)
  case started
  show ?case by (simp add: start_session_def new_client_def)
next
  case (sent s rnd io)
  then show ?case by (auto simp: send_step_def Let_def start_timer_def)
next
  case (received s r)
  then show ?case using receive_acks_iter_cases [of r s]
    by (auto simp: handle_ack_def Let_def restart_timer_def start_timer_def stop_timer_def
          cancel_def split: if_splits)
next
  case (expired s i)
  then show ?case by (simp add: timer_expire_def)
next
  case (timed_out s i io)
  then show ?case
    by (simp add: timer_run_def handle_timeout_def Let_def start_timer_def)
qed

lemma handle_ack_effect:
  assumes "timer_active s \<longrightarrow> timer_thread s = Some i \<and> i < length (timers s)"
  shows
  "(base s \<le> a \<longrightarrow>
      base (handle_ack a s) = a + 1 \<and> next_seq (handle_ack a s) = next_seq s \<and>
      (\<forall>q. packet_data (handle_ack a s) q = (if q \<le> a then None else packet_data s q)) \<and>
      timer_active (handle_ack a s) = (a + 1 < next_seq s) \<and>
      timers (handle_ack a s) =
        (if timer_active s \<and> timers s ! i = Scheduled then (timers s)[i := Cancelled]
         else timers s) @
        (if a + 1 < next_seq s then [Scheduled] else [])) \<and>
   (a < base s \<longrightarrow>
      base (handle_ack a s) = base s \<and> next_seq (handle_ack a s) = next_seq s \<and>
      packet_data (handle_ack a s) = packet_data s \<and>
      timer_active (handle_ack a s) = timer_active s \<and> timers (handle_ack a s) = timers s) \<and>
   handle_ack a (handle_ack a s) =
     (handle_ack a s)\<lparr> stats := (stats (handle_ack a s))
        \<lparr> acks_received := acks_received (stats (handle_ack a s)) + 1 \<rparr> \<rparr>"
proof (intro conjI impI)
  assume "base s \<le> a"
  then show "timer_active (handle_ack a s) = (a + 1 < next_seq s)"
    using assms by (auto simp: handle_ack_def Let_def stop_timer_def)
  from \<open>base s \<le> a\<close> show "timers (handle_ack a s) =
        (if timer_active s \<and> timers s ! i = Scheduled then (timers s)[i := Cancelled]
         else timers s) @
        (if a + 1 < next_seq s then [Scheduled] else [])"
    using assms
    by (auto simp: handle_ack_def Let_def stop_timer_def restart_timer_def start_timer_def
          cancel_def)
next
  have "a < base (handle_ack a s)" by simp
  then show "handle_ack a (handle_ack a s) =
     (handle_ack a s)\<lparr> stats := (stats (handle_ack a s))
        \<lparr> acks_received := acks_received (stats (handle_ack a s)) + 1 \<rparr> \<rparr>"
    by (rule stale_ack)
qed (simp_all add: stale_ack)

lemma timeouts_handle_ack [simp]:
  "timeouts (stats (handle_ack a s)) = timeouts (stats s)"
  by (simp add: handle_ack_def Let_def)

lemma timeouts_send_packet [simp]:
  "timeouts (stats (send_packet d ok q s)) = timeouts (stats s)"
  by (simp add: send_packet_def Let_def split: option.split)

lemma timeouts_send_window [simp]:
  "timeouts (stats (send_window rnd io n s)) = timeouts (stats s)"
proof (induction rnd io n s rule: send_window.induct)
  case (1 rnd io n s)
  show ?case
  proof (cases "next_seq s < base s + window_size s \<and> next_seq s < n \<and> running s")
    case True
    show ?thesis
      using "1.IH" [OF True refl] by (simp add: send_window_unfold [OF True])
  next
    case False
    then show ?thesis by (simp add: send_window_done)
  qed
qed


lemma stats_timer_expire [simp]: "stats (timer_expire i s) = stats s"
  by (simp add: timer_expire_def)


lemma map_filter_length_le: "length (List.map_filter m qs) \<le> length qs"
  by (induction qs) (auto simp: List.map_filter_simps split: option.split)

lemma map_filter_length_less:
  "q \<in> set qs \<Longrightarrow> m q = None \<Longrightarrow> length (List.map_filter m qs) < length qs"
proof (induction qs)
  case Nil
  then show ?case by simp
next
  case (Cons x xs)
  show ?case
  proof (cases "m x")
    case None
    then show ?thesis
      using map_filter_length_le [of m xs] by (simp add: List.map_filter_simps)
  next
    case (Some y)
    with Cons.prems have "q \<in> set xs" by auto
    with Cons.IH Cons.prems(2) Some show ?thesis
      by (simp add: List.map_filter_simps)
  qed
qed

lemma big_fields:
  "base big = 0" "next_seq big = 2 ^ 32 + 1" "running big" "packet_data big (2 ^ 32) = None"
  by (simp_all add: big_def start_session_def new_client_def next_seq_send_window
        packet_data_send_window make_packet_None_iff)

lemma reachable_big: "reachable net (2 ^ 32 + 1) (1 / 10) (2 ^ 32 + 1) big"
  unfolding big_def
  by (rule reachable.sent [OF reachable.started])
     (simp_all add: start_session_def new_client_def)

lemma big_timeout_misses_one:
  "length (drop (length (sendto_calls big)) (sendto_calls (handle_timeout socket_up big)))
     < length [base big .. next_seq big - 1]"
proof -
  have "(2 ^ 32 :: int) \<in> set [base big .. next_seq big - 1]"
    by (simp add: big_fields)
  then have "length (List.map_filter (packet_data big) [base big .. next_seq big - 1])
               < length [base big .. next_seq big - 1]"
    by (rule map_filter_length_less) (rule big_fields)
  then show ?thesis
    by (simp add: sendto_calls_handle_timeout big_fields)
qed

lemma stopped_late_fields:
  "base stopped_late = 0" "next_seq stopped_late = 4" "\<not> running stopped_late"
  by (simp_all add: stopped_late_def stop_def first_window_fields)

lemma late_restart_fields:
  "running late_restart" "timers late_restart = [Expired, Scheduled]"
  using early_late_ack_fields by (simp_all add: late_restart_def)

lemma reachable_late_restart: "reachable acks_of_sent 4 (1 / 10) 15 late_restart"
  unfolding late_restart_def
  by (rule reachable.received [OF reachable_expired_first_window])
     (simp_all add: first_window_fields acks_of_sent_def unpack_I_4)

lemma in_order_ack_timers:
  "timers in_order_ack = [Cancelled, Scheduled]" "timer_thread in_order_ack = Some 1"
  by (simp_all add: in_order_ack_def receive_small_ack first_window_fields handle_ack_def Let_def
        restart_timer_def stop_timer_def start_timer_def cancel_def)

lemma current_expired_timers: "timers current_expired = [Cancelled, Expired]"
  by (simp add: current_expired_def timer_expire_def in_order_ack_timers)

lemma current_expired_fields:
  "base current_expired = 2" "next_seq current_expired = 4"
  "packet_data current_expired 2 = make_packet 2" "packet_data current_expired 3 = make_packet 3"
  by (simp_all add: current_expired_def in_order_ack_fields)
     (simp_all add: in_order_ack_def receive_small_ack first_window_fields
        packet_data_first_window)

lemma reachable_current_expired: "reachable acks_of_sent 4 (1 / 10) 15 current_expired"
  unfolding current_expired_def
  by (rule reachable.expired [OF reachable_in_order_ack]) (simp_all add: in_order_ack_timers)

section \<open>The claims\<close>

subsection \<open>C1: the window invariant\<close>

text \<open>
  C1 says that \<open>base \<le> nextSeq \<le> base + windowSize\<close> holds in every reachable state,
  also after an acknowledgement with \<open>ackSeq \<ge> nextSeq\<close>. \<open>handle_ack\<close> compares the
  number it receives with \<open>base\<close> only, so an acknowledgement of a packet that has not
  been sent puts \<open>base\<close> above \<open>next_seq\<close>: with packets 0 to 3 out, the datagram
  \<open>00 00 00 05\<close> leaves \<open>base = 6\<close> and \<open>next_seq = 4\<close>.
\<close>

theorem window_invariant_counterexample:
  "reachable any_datagram 4 (1 / 10) 15 early_ack \<and>
   \<not> (base early_ack \<le> next_seq early_ack \<and>
      next_seq early_ack \<le> base early_ack + window_size early_ack)"
  using reachable_early_ack by (simp add: early_ack_fields)

text \<open>
  C1 as amended. For a window size that is not negative, \<open>nextSeq \<le> base + windowSize\<close>
  holds in every reachable state whatever datagrams arrive, and
  \<open>base \<le> nextSeq \<le> base + windowSize\<close> holds in every reachable state of a session in
  which every acknowledgement received is for a packet already sent
  (\<open>ackSeq < nextSeq\<close> when it is processed). From any state in which
  \<open>base \<le> nextSeq \<le> base + windowSize\<close> holds, a send step, a timeout handling and an
  acknowledgement with \<open>ackSeq < nextSeq\<close> lead to a state in which it holds. An
  acknowledgement with \<open>ackSeq \<ge> base\<close> and \<open>ackSeq \<ge> nextSeq\<close> leaves
  \<open>base = ackSeq + 1 > nextSeq\<close>.
\<close>

theorem window_bound:
  "0 \<le> ws \<Longrightarrow>
   (reachable any_datagram ws rate n s \<longrightarrow> next_seq s \<le> base s + window_size s) \<and>
   (reachable acks_of_sent ws rate n s \<longrightarrow>
      base s \<le> next_seq s \<and> next_seq s \<le> base s + window_size s) \<and>
   (base t \<le> next_seq t \<and> next_seq t \<le> base t + window_size t \<longrightarrow>
      base (send_step rnd io m t) \<le> next_seq (send_step rnd io m t) \<and>
      next_seq (send_step rnd io m t) \<le> base (send_step rnd io m t) + window_size (send_step rnd io m t) \<and>
      base (handle_timeout io t) \<le> next_seq (handle_timeout io t) \<and>
      next_seq (handle_timeout io t) \<le> base (handle_timeout io t) + window_size (handle_timeout io t) \<and>
      (a < next_seq t \<longrightarrow>
         base (handle_ack a t) \<le> next_seq (handle_ack a t) \<and>
         next_seq (handle_ack a t) \<le> base (handle_ack a t) + window_size (handle_ack a t))) \<and>
   (base t \<le> a \<and> next_seq t \<le> a \<longrightarrow>
      base (handle_ack a t) = a + 1 \<and> next_seq (handle_ack a t) < base (handle_ack a t))"
proof -
  assume ws: "0 \<le> ws"
  have 1: "reachable any_datagram ws rate n s \<longrightarrow> next_seq s \<le> base s + window_size s"
    using reachable_window_upper ws by blast
  have 2: "reachable acks_of_sent ws rate n s \<longrightarrow>
      base s \<le> next_seq s \<and> next_seq s \<le> base s + window_size s"
    using reachable_window_upper reachable_acks_of_sent ws by blast
  have 3: "base (send_step rnd io m t) \<le> next_seq (send_step rnd io m t) \<and>
      next_seq (send_step rnd io m t) \<le> base (send_step rnd io m t) + window_size (send_step rnd io m t)"
    if "base t \<le> next_seq t \<and> next_seq t \<le> base t + window_size t"
    using that by (auto simp: next_seq_send_window)
  have 4: "base (handle_ack a t) \<le> next_seq (handle_ack a t) \<and>
         next_seq (handle_ack a t) \<le> base (handle_ack a t) + window_size (handle_ack a t)"
    if "base t \<le> next_seq t \<and> next_seq t \<le> base t + window_size t" "a < next_seq t"
    using that by simp
  have 5: "base (handle_ack a t) = a + 1 \<and> next_seq (handle_ack a t) < base (handle_ack a t)"
    if "base t \<le> a \<and> next_seq t \<le> a"
    using that by simp
  show ?thesis
    using 1 2 3 4 5 by simp
qed

theorem window_bound_witness:
  "(0::int) \<le> 4 \<and> reachable any_datagram 4 (1 / 10) 15 early_ack \<and>
   next_seq early_ack \<le> base early_ack + window_size early_ack \<and>
   reachable acks_of_sent 4 (1 / 10) 15 in_order_ack \<and>
   base in_order_ack \<le> next_seq in_order_ack \<and>
   next_seq in_order_ack \<le> base in_order_ack + window_size in_order_ack \<and>
   base first_window \<le> next_seq first_window \<and>
   next_seq first_window \<le> base first_window + window_size first_window \<and>
   (2::int) < next_seq first_window \<and>
   base (handle_ack 2 first_window) \<le> next_seq (handle_ack 2 first_window) \<and>
   next_seq (handle_ack 2 first_window) \<le>
     base (handle_ack 2 first_window) + window_size (handle_ack 2 first_window) \<and>
   base (send_step calm_draw socket_up 15 first_window)
     \<le> next_seq (send_step calm_draw socket_up 15 first_window) \<and>
   base (handle_timeout socket_up first_window) \<le> next_seq (handle_timeout socket_up first_window) \<and>
   base first_window \<le> 5 \<and> next_seq first_window \<le> 5 \<and>
   base (handle_ack 5 first_window) = 6 \<and>
   next_seq (handle_ack 5 first_window) < base (handle_ack 5 first_window)"
proof -
  have z: "(0::int) \<le> 4" by simp
  note w1 = window_bound [OF z, of "1 / 10" 15 early_ack first_window calm_draw socket_up 15 2]
  note w2 = window_bound [OF z, of "1 / 10" 15 in_order_ack first_window calm_draw socket_up 15 5]
  show ?thesis
    using w1 w2 reachable_early_ack reachable_in_order_ack
    by (simp add: first_window_fields)
qed

subsection \<open>C2: the keys of the pending-packet store\<close>

text \<open>
  C2 says that the keys of the store (\<open>packet_data\<close>, the dictionary \<open>handle_timeout\<close>
  resends from) are exactly \<open>base, \<dots>, nextSeq - 1\<close> in every reachable state. After the
  acknowledgement of the unsent packet 5 above, the next pass of the main thread sends
  packets 4 to 9 and stores each of them, while \<open>base\<close> is 6: key 4 is in the store and
  below \<open>base\<close>.
\<close>

theorem store_keys_counterexample:
  "reachable any_datagram 4 (1 / 10) 15 after_early_ack \<and>
   dom (packet_data after_early_ack) \<noteq> {base after_early_ack .. next_seq after_early_ack - 1}"
proof -
  have "4 \<in> dom (packet_data after_early_ack)"
    using after_early_ack_fields(3) by (simp add: dom_def)
  moreover have "4 \<notin> {base after_early_ack .. next_seq after_early_ack - 1}"
    by (simp add: after_early_ack_fields)
  ultimately show ?thesis
    using reachable_after_early_ack by blast
qed

text \<open>
  C2 as amended: in every reachable state of a session of at most \<open>2^32\<close> packets (so
  that every sequence number fits the four-byte header) in which every acknowledgement
  received is for a packet already sent, the keys of \<open>packet_data\<close> are exactly
  \<open>base, \<dots>, nextSeq - 1\<close>.
\<close>

theorem store_keys:
  "reachable acks_of_sent ws rate n s \<Longrightarrow> n \<le> 2 ^ 32 \<Longrightarrow>
   dom (packet_data s) = {base s .. next_seq s - 1}"
proof -
  assume r: "reachable acks_of_sent ws rate n s" and n: "n \<le> 2 ^ 32"
  have up: "next_seq s \<le> 2 ^ 32"
    using reachable_bounds [OF r] n by auto
  show ?thesis
  proof (intro set_eqI iffI)
    fix q assume "q \<in> dom (packet_data s)"
    then obtain p where "packet_data s q = Some p" by blast
    then have "base s \<le> q" "q < next_seq s"
      using reachable_acks_of_sent [OF r] reachable_store [OF r] by blast+
    then show "q \<in> {base s .. next_seq s - 1}" by simp
  next
    fix q assume "q \<in> {base s .. next_seq s - 1}"
    then have "base s \<le> q \<and> q < next_seq s \<and> q < 2 ^ 32"
      using up by simp
    then have "packet_data s q \<noteq> None"
      using reachable_store [OF r] by blast
    then show "q \<in> dom (packet_data s)" by blast
  qed
qed

theorem store_keys_witness:
  "reachable acks_of_sent 4 (1 / 10) 15 in_order_ack \<and> (15::int) \<le> 2 ^ 32 \<and>
   dom (packet_data in_order_ack) = {2 .. 3}"
  using store_keys [OF reachable_in_order_ack] reachable_in_order_ack
  by (simp add: in_order_ack_fields)

subsection \<open>C3: cumulative, idempotent acknowledgements\<close>


subsection \<open>C4: a timeout resends the whole window\<close>

text \<open>
  C4 says that on every timeout event the handler resends every sequence number from
  \<open>base\<close> to \<open>nextSeq - 1\<close> once, in order, with the stored bytes, and then restarts the
  timer. Three states in which it does not: in a session of more than \<open>2^32\<close> packets,
  sequence number \<open>2^32\<close> does not fit the four-byte header, was never stored and is
  skipped, so the handler makes fewer calls of \<open>sendto\<close> than the window has sequence
  numbers; after \<open>stop\<close> the handler returns at once (the test of \<open>running\<close>) with
  packets 0 to 3 outstanding; and a handler that runs after an acknowledgement has
  already restarted the timer schedules a second timer beside the first.
\<close>

theorem handle_timeout_counterexample:
  "reachable acks_of_sent (2 ^ 32 + 1) (1 / 10) (2 ^ 32 + 1) big \<and>
   base big \<le> 2 ^ 32 \<and> 2 ^ 32 < next_seq big \<and> packet_data big (2 ^ 32) = None \<and>
   length (drop (length (sendto_calls big)) (sendto_calls (handle_timeout socket_up big)))
     < length [base big .. next_seq big - 1] \<and>
   base stopped_late < next_seq stopped_late \<and>
   handle_timeout socket_up stopped_late = stopped_late \<and>
   reachable acks_of_sent 4 (1 / 10) 15 late_restart \<and>
   timers late_restart = [Expired, Scheduled] \<and>
   timers (handle_timeout socket_up late_restart) = [Expired, Scheduled, Scheduled]"
proof -
  have s: "handle_timeout socket_up stopped_late = stopped_late"
    by (simp add: handle_timeout_def stopped_late_fields)
  have t: "timers (handle_timeout socket_up late_restart) = [Expired, Scheduled, Scheduled]"
    by (simp add: handle_timeout_timer late_restart_fields)
  have b: "base big \<le> 2 ^ 32 \<and> 2 ^ 32 < next_seq big \<and> packet_data big (2 ^ 32) = None"
    using big_fields by simp
  have l: "base stopped_late < next_seq stopped_late"
    by (simp add: stopped_late_fields)
  show ?thesis
    using reachable_big [of acks_of_sent] big_timeout_misses_one reachable_late_restart
      s t b l late_restart_fields(2)
    by blast
qed

text \<open>
  C4 as amended: in every reachable state of a session (between \<open>start\<close> and \<open>stop\<close>,
  so \<open>running\<close> is set) of at most \<open>2^32\<close> packets, the timeout handler hands to
  \<open>sendto\<close>, once each and in increasing order of sequence number, the stored bytes of
  every sequence number from \<open>base\<close> to \<open>nextSeq - 1\<close>; these are the bytes
  \<open>send_packet\<close> serialized and stored when the packet was first sent; \<open>base\<close>,
  \<open>nextSeq\<close> and the store are unchanged; afterwards the flag is set and a new timer,
  the current one, is scheduled; and if no other timer was scheduled when the handler
  ran, the new timer is the only scheduled one. This holds whatever the network delivers
  and whether or not \<open>sendto\<close> fails. What the handler leaves behind when another timer
  is scheduled is not part of the statement.
\<close>

theorem handle_timeout_retransmits_window:
  assumes "reachable net ws rate n s" and "n \<le> 2 ^ 32"
  shows "sendto_calls (handle_timeout io s) =
           sendto_calls s @ map (\<lambda>q. the (packet_data s q)) [base s .. next_seq s - 1] \<and>
         (\<forall>q \<in> set [base s .. next_seq s - 1].
            make_packet q \<noteq> None \<and> packet_data s q = make_packet q) \<and>
         base (handle_timeout io s) = base s \<and>
         next_seq (handle_timeout io s) = next_seq s \<and>
         packet_data (handle_timeout io s) = packet_data s \<and>
         timer_active (handle_timeout io s) \<and>
         timers (handle_timeout io s) = timers s @ [Scheduled] \<and>
         timer_thread (handle_timeout io s) = Some (length (timers s)) \<and>
         (Scheduled \<notin> set (timers s) \<longrightarrow>
            (\<forall>j < length (timers (handle_timeout io s)).
               (timers (handle_timeout io s) ! j = Scheduled) = (j = length (timers s))))"
proof -
  have run: "running s"
    using reachable_consts [OF assms(1)] by simp
  have up: "next_seq s \<le> 2 ^ 32"
    using reachable_bounds [OF assms(1)] assms(2) by auto
  have stored: "make_packet q \<noteq> None \<and> packet_data s q = make_packet q"
    if "q \<in> set [base s .. next_seq s - 1]" for q
  proof -
    from that up have "base s \<le> q \<and> q < next_seq s \<and> q < 2 ^ 32" by simp
    then obtain p where p: "packet_data s q = Some p"
      using reachable_store [OF assms(1)] by blast
    then have "make_packet q = Some p"
      using reachable_store [OF assms(1)] by blast
    with p show ?thesis by simp
  qed
  have "List.map_filter (packet_data s) [base s .. next_seq s - 1] =
          map (\<lambda>q. the (packet_data s q)) [base s .. next_seq s - 1]"
    by (rule map_filter_all) (use stored in auto)
  then have calls: "sendto_calls (handle_timeout io s) =
           sendto_calls s @ map (\<lambda>q. the (packet_data s q)) [base s .. next_seq s - 1]"
    using run by (simp add: sendto_calls_handle_timeout)
  have one: "(timers (handle_timeout io s) ! j = Scheduled) = (j = length (timers s))"
    if "Scheduled \<notin> set (timers s)" "j < length (timers (handle_timeout io s))" for j
  proof (cases "j < length (timers s)")
    case True
    then have "timers s ! j \<in> set (timers s)" by simp
    with that(1) have "timers s ! j \<noteq> Scheduled" by metis
    with True show ?thesis
      using run by (simp add: handle_timeout_timer nth_append)
  next
    case False
    with that(2) have "j = length (timers s)"
      using run by (simp add: handle_timeout_timer)
    then show ?thesis
      using run by (simp add: handle_timeout_timer)
  qed
  show ?thesis
    using calls stored run one by (simp add: handle_timeout_timer)
qed

theorem handle_timeout_retransmits_window_witness:
  "reachable acks_of_sent 4 (1 / 10) 15 current_expired \<and> (15::int) \<le> 2 ^ 32 \<and>
   Scheduled \<notin> set (timers current_expired) \<and>
   sendto_calls (handle_timeout socket_up current_expired) =
     sendto_calls current_expired @ [the (make_packet 2), the (make_packet 3)] \<and>
   base (handle_timeout socket_up current_expired) = 2 \<and>
   next_seq (handle_timeout socket_up current_expired) = 4 \<and>
   timer_active (handle_timeout socket_up current_expired) \<and>
   timers (handle_timeout socket_up current_expired) = [Cancelled, Expired, Scheduled] \<and>
   timers (handle_timeout socket_up current_expired) ! 2 = Scheduled \<and>
   timers (handle_timeout socket_up current_expired) ! 1 \<noteq> Scheduled \<and>
   timers (handle_timeout socket_up current_expired) ! 0 \<noteq> Scheduled"
proof -
  have l: "[2 .. 3::int] = [2, 3]"
    by (simp add: upto.simps)
  have n: "Scheduled \<notin> set (timers current_expired)"
    by (simp add: current_expired_timers)
  note w = handle_timeout_retransmits_window [OF reachable_current_expired, of socket_up]
  have "(15::int) \<le> 2 ^ 32" by simp
  with w n have e: "\<forall>j < length (timers (handle_timeout socket_up current_expired)).
      (timers (handle_timeout socket_up current_expired) ! j = Scheduled) =
      (j = length (timers current_expired))"
    by blast
  have len: "length (timers (handle_timeout socket_up current_expired)) = 3"
    using w by (simp add: current_expired_timers)
  from e len have "timers (handle_timeout socket_up current_expired) ! 2 = Scheduled"
    "timers (handle_timeout socket_up current_expired) ! 1 \<noteq> Scheduled"
    "timers (handle_timeout socket_up current_expired) ! 0 \<noteq> Scheduled"
    by (simp_all add: current_expired_timers)
  then show ?thesis
    using w reachable_current_expired n
    by (simp add: current_expired_fields current_expired_timers l)
qed

subsection \<open>C5: one timer, active exactly when packets are outstanding\<close>

text \<open>
  C5 says that in every reachable state the timer is active if and only if
  \<open>base < nextSeq\<close>, and that at most one timer is active. \<open>handle_ack\<close> and
  \<open>send_packets\<close> test \<open>base < next_seq\<close> before they start a timer; \<open>handle_timeout\<close>
  does not. When timer 0 expires while the listener holds the lock for the
  acknowledgement of packet 3, \<open>cancel()\<close> comes too late, the handler runs with an empty
  window and schedules timer 1: the flag is set while \<open>base = next_seq = 4\<close>. When the
  acknowledgement is that of packet 1 instead, the listener schedules timer 1 and the
  late handler schedules timer 2: two timers are scheduled at once. Both sessions are
  reachable with a receiver that only acknowledges packets that were sent.
\<close>

theorem timer_active_with_empty_window:
  "reachable acks_of_sent 4 (1 / 10) 15 late_timeout \<and>
   base late_timeout = 4 \<and> next_seq late_timeout = 4 \<and> timer_active late_timeout \<and>
   timers late_timeout = [Finished, Scheduled] \<and>
   reachable acks_of_sent 4 (1 / 10) 15 two_timers \<and>
   timers two_timers = [Finished, Scheduled, Scheduled]"
  using reachable_late_timeout reachable_two_timers two_timers_scheduled
  by (simp add: late_timeout_def late_ack_fields)
     (simp add: timer_run_def Let_def handle_timeout_timer late_ack_fields)

subsection \<open>C6: the end of a session\<close>

text \<open>
  C6 says that every session ends, a session without acknowledgements after a maximum
  total wait. The wait of thirty seconds is in \<open>wait_for_completion\<close>, which \<open>start\<close>
  calls after \<open>send_packets\<close> has returned; \<open>send_packets\<close> loops while
  \<open>base < num_packets\<close>. In a session of fifteen packets in which no datagram ever
  arrives, whatever the timers, the draws, the socket and the clock do, \<open>start\<close> does
  not return.
\<close>

theorem session_without_acks_never_ends:
  "start (timeouts_only fires io2) rnd io clock 15 (new_client 4 rate) = None"
proof -
  have "send_packets (timeouts_only fires io2) rnd io 15 0 (start_session 15 (new_client 4 rate)) \<noteq> Some y" for y
  proof
    assume "send_packets (timeouts_only fires io2) rnd io 15 0 (start_session 15 (new_client 4 rate)) = Some y"
    then have "\<not> (base (start_session 15 (new_client 4 rate)) < 15 \<and>
                 running (start_session 15 (new_client 4 rate)))"
      by (rule send_packets_returns_only_when_done) simp
    then show False by (simp add: start_session_def new_client_def)
  qed
  then have "send_packets (timeouts_only fires io2) rnd io 15 0 (start_session 15 (new_client 4 rate)) = None"
    by (cases "send_packets (timeouts_only fires io2) rnd io 15 0 (start_session 15 (new_client 4 rate))") auto
  then show ?thesis by (simp add: start_def)
qed

subsection \<open>C7: datagrams that are not four bytes long\<close>

text \<open>
  C7: the listener passes a datagram on to \<open>handle_ack\<close> if and only if it is exactly
  four bytes long, and then with the number these bytes are in big-endian order; a
  datagram of any other length leaves the object as it is, and so does either
  exception of \<open>recvfrom\<close>, which the loop catches.
\<close>

theorem receive_acks_iter_four_bytes:
  "(length d = 4 \<longrightarrow>
      unpack_I d = Some (uint (d ! 0) * 2 ^ 24 + uint (d ! 1) * 2 ^ 16 + uint (d ! 2) * 2 ^ 8 + uint (d ! 3)) \<and>
      receive_acks_iter (Datagram d) s =
        handle_ack (uint (d ! 0) * 2 ^ 24 + uint (d ! 1) * 2 ^ 16 + uint (d ! 2) * 2 ^ 8 + uint (d ! 3)) s) \<and>
   (length d \<noteq> 4 \<longrightarrow> receive_acks_iter (Datagram d) s = s) \<and>
   ((\<exists>a. receive_acks_iter (Datagram d) s = handle_ack a s) \<longleftrightarrow> length d = 4) \<and>
   receive_acks_iter Socket_timeout s = s \<and> receive_acks_iter Socket_error s = s"
proof -
  have four: "unpack_I d = Some (uint (d ! 0) * 2 ^ 24 + uint (d ! 1) * 2 ^ 16 + uint (d ! 2) * 2 ^ 8 + uint (d ! 3)) \<and>
      receive_acks_iter (Datagram d) s =
        handle_ack (uint (d ! 0) * 2 ^ 24 + uint (d ! 1) * 2 ^ 16 + uint (d ! 2) * 2 ^ 8 + uint (d ! 3)) s"
    if "length d = 4"
  proof -
    from that obtain b0 b1 b2 b3 where d: "d = [b0, b1, b2, b3]"
      by (auto simp: length_Suc_conv eval_nat_numeral)
    show ?thesis
      by (simp add: d unpack_I_4 receive_acks_iter_def)
  qed
  have other: "receive_acks_iter (Datagram d) s = s" if "length d \<noteq> 4"
    using that by (simp add: receive_acks_iter_def Let_def)
  have changed: "handle_ack a s \<noteq> s" for a
  proof
    assume "handle_ack a s = s"
    then have "acks_received (stats (handle_ack a s)) = acks_received (stats s)" by simp
    then show False
      by (simp add: handle_ack_def Let_def restart_timer_def start_timer_def stop_timer_def
            split: if_splits)
  qed
  have iff: "(\<exists>a. receive_acks_iter (Datagram d) s = handle_ack a s) \<longleftrightarrow> length d = 4"
  proof (cases "length d = 4")
    case True
    then show ?thesis using four by blast
  next
    case False
    then have "receive_acks_iter (Datagram d) s = s" by (rule other)
    then show ?thesis using changed False by metis
  qed
  have rest: "receive_acks_iter Socket_timeout s = s \<and> receive_acks_iter Socket_error s = s"
    by (simp add: receive_acks_iter_def)
  show ?thesis
    using four other iff rest by blast
qed

theorem receive_acks_iter_four_bytes_witness:
  "length [0, 0, 0, 2 :: byte] = 4 \<and>
   receive_acks_iter (Datagram [0, 0, 0, 2]) first_window = handle_ack 2 first_window \<and>
   length [0, 0, 2 :: byte] \<noteq> 4 \<and>
   receive_acks_iter (Datagram [0, 0, 2]) first_window = first_window"
  using receive_acks_iter_four_bytes [of "[0, 0, 0, 2]" first_window]
    receive_acks_iter_four_bytes [of "[0, 0, 2]" first_window]
  by simp

subsection \<open>C8: the loss simulation at loss rate zero\<close>

text \<open>
  C8 says that a packet is dropped with probability exactly the loss rate, so that at
  loss rate zero no draw drops a packet. \<open>send_packet\<close> drops when
  \<open>random.random() <= packet_loss_rate\<close>, and \<open>random.random()\<close> can return \<open>0.0\<close>:
  at loss rate zero that draw drops packet 0, counts it as lost and sends nothing.
\<close>

theorem zero_loss_rate_drops_zero_draw:
  "packets_lost (stats (send_packet 0 True 0 (start_session 15 (new_client 4 0)))) = 1 \<and>
   packets_sent (stats (send_packet 0 True 0 (start_session 15 (new_client 4 0)))) = 0 \<and>
   sendto_calls (send_packet 0 True 0 (start_session 15 (new_client 4 0))) = []"
  by (simp add: send_packet_def make_packet_def pack_I_def start_session_def new_client_def Let_def)

subsection \<open>C9: retransmissions bypass the loss simulation\<close>

text \<open>
  C9: the timeout handler takes no random draw, and its result does not depend on the
  loss rate; it leaves the count of lost packets as it is; and in a running session it
  hands to \<open>sendto\<close> the stored bytes of every sequence number of the window that has an
  entry in the store (\<open>List.map_filter\<close> keeps the entries that exist, in order).
\<close>

theorem retransmission_ignores_loss_rate:
  "handle_timeout io (s\<lparr>packet_loss_rate := r\<rparr>) = (handle_timeout io s)\<lparr>packet_loss_rate := r\<rparr> \<and>
   packets_lost (stats (handle_timeout io s)) = packets_lost (stats s) \<and>
   sendto_calls (handle_timeout io s) =
     (if running s
      then sendto_calls s @ List.map_filter (packet_data s) [base s .. next_seq s - 1]
      else sendto_calls s)"
  by (simp add: handle_timeout_rate sendto_calls_handle_timeout)

subsection \<open>C10: a dropped packet stays in the store\<close>



end
